theory Spec2Isabelle
  imports Complex_Main
begin

section \<open>Pull-based reward distribution: the two example ledgers\<close>

text \<open>
  The repository holds two Python classes, both called \<open>PullBasedDistribution\<close>:
  \<^item> \<open>deferred_rewards_example.py\<close> (the spec's Policy A), embedded with the prefix \<open>d_\<close>;
  \<^item> \<open>gap_rewards_example.py\<close> (the spec's Policy B), embedded with the prefix \<open>g_\<close>.

  Addresses and distribution ids are Python integers (\<open>int\<close>).  Amounts, rates and
  tallies are Python numbers combined with \<open>+\<close>, \<open>-\<close>, \<open>*\<close> and the true division \<open>/\<close>;
  they are embedded as exact rationals (\<open>rat\<close>), that is, the rounding of the floating
  point results of \<open>/\<close> is left out.

  A method mutates the object and may raise.  It is embedded as a function from the
  state before the call to the pair of its outcome and the state at the moment it
  returns or raises: \<open>Inr v\<close> is the returned value, \<open>Inl e\<close> the raised exception.
  The state component of a raising call is the state as the exception leaves it, so
  that a mutation made before a \<open>raise\<close> stays visible.
\<close>

subsection \<open>Exceptions and sequencing\<close>

text \<open>
  \<open>EmptyPool\<close> is \<open>Exception("Cannot distribute to staking pool with 0 stake")\<close>,
  \<open>InsufficientStake\<close> is \<open>Exception("Requested amount greater than staked amount")\<close>,
  \<open>KeyError\<close> is what the subscription \<open>d[k]\<close> of a dict raises on a missing key.
\<close>

datatype error = EmptyPool | InsufficientStake | KeyError

type_synonym address = int
type_synonym amount = rat

type_synonym ('s, 'a) prog = "'s \<Rightarrow> (error + 'a) \<times> 's"

definition ret :: "'a \<Rightarrow> ('s, 'a) prog" where
  "ret v = (\<lambda>s. (Inr v, s))"

definition throw :: "error \<Rightarrow> ('s, 'a) prog" where
  "throw e = (\<lambda>s. (Inl e, s))"

text \<open>Statement sequencing: an exception of the first part skips the second.\<close>

definition andthen :: "('s, 'a) prog \<Rightarrow> ('a \<Rightarrow> ('s, 'b) prog) \<Rightarrow> ('s, 'b) prog" where
  "andthen p q = (\<lambda>s. case p s of (Inl e, s') \<Rightarrow> (Inl e, s') | (Inr v, s') \<Rightarrow> q v s')"

text \<open>Reading an attribute \<open>self.f\<close>.\<close>

definition attr :: "('s \<Rightarrow> 'a) \<Rightarrow> ('s, 'a) prog" where
  "attr f = (\<lambda>s. (Inr (f s), s))"

text \<open>Any plain attribute assignment \<open>self.f = v\<close>, given as a state transformer.\<close>

definition assign :: "('s \<Rightarrow> 's) \<Rightarrow> ('s, unit) prog" where
  "assign f = (\<lambda>s. (Inr (), f s))"

text \<open>\<open>self.f[k]\<close> as an expression: raises \<open>KeyError\<close> on a missing key.\<close>

definition getitem :: "('s \<Rightarrow> 'k \<rightharpoonup> 'v) \<Rightarrow> 'k \<Rightarrow> ('s, 'v) prog" where
  "getitem f k = (\<lambda>s. case f s k of None \<Rightarrow> (Inl KeyError, s) | Some v \<Rightarrow> (Inr v, s))"

text \<open>\<open>self.f[k] = v\<close>: never raises, inserts the key when it is missing.\<close>

definition setitem :: "((('k \<rightharpoonup> 'v) \<Rightarrow> ('k \<rightharpoonup> 'v)) \<Rightarrow> 's \<Rightarrow> 's) \<Rightarrow> 'k \<Rightarrow> 'v \<Rightarrow> ('s, unit) prog" where
  "setitem upd k v = (\<lambda>s. (Inr (), upd (\<lambda>m. m(k \<mapsto> v)) s))"

text \<open>
  The augmented assignments \<open>self.f[k] += x\<close> and \<open>self.f[k] -= x\<close>: the old value is
  read first (\<open>KeyError\<close> on a missing key), then the new one is stored.
\<close>

definition augitem ::
  "('s \<Rightarrow> 'k \<rightharpoonup> 'v) \<Rightarrow> ((('k \<rightharpoonup> 'v) \<Rightarrow> ('k \<rightharpoonup> 'v)) \<Rightarrow> 's \<Rightarrow> 's) \<Rightarrow> 'k \<Rightarrow> ('v \<Rightarrow> 'v) \<Rightarrow> ('s, unit) prog" where
  "augitem f upd k h =
     (\<lambda>s. case f s k of None \<Rightarrow> (Inl KeyError, s)
          | Some v \<Rightarrow> (Inr (), upd (\<lambda>m. m(k \<mapsto> h v)) s))"

subsection \<open>The deferred-reward ledger (\<open>deferred_rewards_example.py\<close>)\<close>










subsection \<open>The gap ledger (\<open>gap_rewards_example.py\<close>)\<close>

record gap =
  g_total_stake :: amount
  g_total_pending_stake :: amount
  g_reward_per_token :: amount
  g_reward_per_token_history :: "int \<rightharpoonup> amount"
  g_current_distribution_id :: int
  g_stake :: "address \<rightharpoonup> amount"
  g_reward_tally :: "address \<rightharpoonup> amount"
  g_pending_stake :: "address \<rightharpoonup> amount"
  g_distribution_id :: "address \<rightharpoonup> int"

definition g_init :: gap where
  "g_init =
     \<lparr> g_total_stake = 0, g_total_pending_stake = 0, g_reward_per_token = 0,
       g_reward_per_token_history = Map.empty,
       g_current_distribution_id = 0,
       g_stake = [1 \<mapsto> 0, 2 \<mapsto> 0],
       g_reward_tally = [1 \<mapsto> 0, 2 \<mapsto> 0],
       g_pending_stake = [1 \<mapsto> 0, 2 \<mapsto> 0],
       g_distribution_id = [1 \<mapsto> 0, 2 \<mapsto> 0] \<rparr>"

text \<open>
  \<open>__update_state\<close>.  In \<open>self.stake[address] += self.pending_stake[address]\<close> Python
  reads the target first, then evaluates the right-hand side, then stores; the same
  holds for the \<open>reward_tally\<close> line, whose right-hand side subscripts three dicts.
\<close>

definition g_update_state :: "address \<Rightarrow> (gap, unit) prog" where
  "g_update_state address =
     andthen (getitem g_distribution_id address) (\<lambda>d.
     andthen (attr g_current_distribution_id) (\<lambda>cur.
     if d \<noteq> cur then
       andthen (getitem g_stake address) (\<lambda>st.
       andthen (getitem g_pending_stake address) (\<lambda>pending.
       andthen (setitem g_stake_update address (st + pending)) (\<lambda>_.
       andthen (getitem g_reward_tally address) (\<lambda>tally.
       andthen (getitem g_pending_stake address) (\<lambda>pending.
       andthen (getitem g_distribution_id address) (\<lambda>d.
       andthen (getitem g_reward_per_token_history d) (\<lambda>old_rpt.
       andthen (setitem g_reward_tally_update address (tally + pending * old_rpt)) (\<lambda>_.
       andthen (attr g_current_distribution_id) (\<lambda>cur.
       andthen (setitem g_distribution_id_update address cur) (\<lambda>_.
       setitem g_pending_stake_update address 0))))))))))
     else ret ()))"

definition g_distribute :: "amount \<Rightarrow> (gap, unit) prog" where
  "g_distribute reward =
     andthen (attr g_total_stake) (\<lambda>total.
     andthen (if total > 0
              then assign (\<lambda>s. s\<lparr>g_reward_per_token := g_reward_per_token s + reward / total\<rparr>)
              else ret ()) (\<lambda>_.
     andthen (attr g_current_distribution_id) (\<lambda>prev_distribution_id.
     andthen (attr g_reward_per_token) (\<lambda>rpt.
     andthen (setitem g_reward_per_token_history_update prev_distribution_id rpt) (\<lambda>_.
     andthen (assign (\<lambda>s. s\<lparr>g_current_distribution_id := g_current_distribution_id s + 1\<rparr>)) (\<lambda>_.
     andthen (assign (\<lambda>s. s\<lparr>g_total_stake := g_total_stake s + g_total_pending_stake s\<rparr>)) (\<lambda>_.
     assign (\<lambda>s. s\<lparr>g_total_pending_stake := 0\<rparr>))))))))"

definition g_deposit_stake :: "address \<Rightarrow> amount \<Rightarrow> (gap, unit) prog" where
  "g_deposit_stake address amount =
     andthen (g_update_state address) (\<lambda>_.
     andthen (augitem g_pending_stake g_pending_stake_update address (\<lambda>v. v + amount)) (\<lambda>_.
     assign (\<lambda>s. s\<lparr>g_total_pending_stake := g_total_pending_stake s + amount\<rparr>)))"

definition g_withdraw_stake :: "address \<Rightarrow> amount \<Rightarrow> (gap, unit) prog" where
  "g_withdraw_stake address amount =
     andthen (getitem g_stake address) (\<lambda>staked.
     andthen (getitem g_pending_stake address) (\<lambda>pended.
     if amount > staked + pended then throw InsufficientStake
     else
       andthen (g_update_state address) (\<lambda>_.
       andthen (getitem g_pending_stake address) (\<lambda>pending.
       let pending_amount = min amount pending in
       andthen (augitem g_pending_stake g_pending_stake_update address
                  (\<lambda>v. v - pending_amount)) (\<lambda>_.
       andthen (assign (\<lambda>s. s\<lparr>g_total_pending_stake :=
                  g_total_pending_stake s - pending_amount\<rparr>)) (\<lambda>_.
       let computed_amount = amount - pending_amount in
       andthen (augitem g_stake g_stake_update address (\<lambda>v. v - computed_amount)) (\<lambda>_.
       andthen (attr g_reward_per_token) (\<lambda>rpt.
       andthen (augitem g_reward_tally g_reward_tally_update address
                  (\<lambda>v. v - rpt * computed_amount)) (\<lambda>_.
       assign (\<lambda>s. s\<lparr>g_total_stake := g_total_stake s - computed_amount\<rparr>))))))))))"

definition g_compute_reward :: "address \<Rightarrow> (gap, amount) prog" where
  "g_compute_reward address =
     andthen (getitem g_stake address) (\<lambda>st.
     andthen (getitem g_reward_tally address) (\<lambda>tally.
     andthen (getitem g_distribution_id address) (\<lambda>d.
     andthen (attr g_current_distribution_id) (\<lambda>cur.
     andthen (if d \<noteq> cur then
                andthen (getitem g_pending_stake address) (\<lambda>pending.
                andthen (getitem g_pending_stake address) (\<lambda>pending'.
                andthen (getitem g_distribution_id address) (\<lambda>d'.
                andthen (getitem g_reward_per_token_history d') (\<lambda>old_rpt.
                ret (st + pending, tally + pending' * old_rpt)))))
              else ret (st, tally)) (\<lambda>(st', tally').
     andthen (attr g_reward_per_token) (\<lambda>rpt.
     ret (st' * rpt - tally')))))))"

definition g_withdraw_reward :: "address \<Rightarrow> (gap, amount) prog" where
  "g_withdraw_reward address =
     andthen (g_update_state address) (\<lambda>_.
     andthen (g_compute_reward address) (\<lambda>reward.
     andthen (getitem g_stake address) (\<lambda>st.
     andthen (attr g_reward_per_token) (\<lambda>rpt.
     andthen (setitem g_reward_tally_update address (st * rpt)) (\<lambda>_.
     ret reward)))))"

subsection \<open>Call sequences and reachable states\<close>

text \<open>
  The four mutating methods as a datatype of calls.  A call that raises leaves the
  ledger in the state the exception left it in, and the next call runs from there.
  \<open>compute_reward\<close> changes nothing and is no call of its own.
\<close>

datatype call =
    Distribute amount
  | Deposit_stake address amount
  | Withdraw_stake address amount
  | Withdraw_reward address

text \<open>The amounts a caller may pass: rewards and stake amounts are non-negative.\<close>

fun nonneg_call :: "call \<Rightarrow> bool" where
  "nonneg_call (Distribute reward) = (0 \<le> reward)"
| "nonneg_call (Deposit_stake address amount) = (0 \<le> amount)"
| "nonneg_call (Withdraw_stake address amount) = (0 \<le> amount)"
| "nonneg_call (Withdraw_reward address) = True"


fun g_call :: "call \<Rightarrow> gap \<Rightarrow> gap" where
  "g_call (Distribute reward) s = snd (g_distribute reward s)"
| "g_call (Deposit_stake address amount) s = snd (g_deposit_stake address amount s)"
| "g_call (Withdraw_stake address amount) s = snd (g_withdraw_stake address amount s)"
| "g_call (Withdraw_reward address) s = snd (g_withdraw_reward address s)"


fun g_calls :: "call list \<Rightarrow> gap \<Rightarrow> gap" where
  "g_calls [] s = s"
| "g_calls (c # cs) s = g_calls cs (g_call c s)"


inductive g_reachable :: "gap \<Rightarrow> bool" where
  g_reachable_init: "g_reachable g_init"
| g_reachable_call: "g_reachable s \<Longrightarrow> nonneg_call c \<Longrightarrow> g_reachable (g_call c s)"

subsection \<open>Invariants of the reachable states\<close>




definition g_account_ok :: "gap \<Rightarrow> address \<Rightarrow> bool" where
  "g_account_ok s a \<longleftrightarrow>
     (\<exists>st t p d. g_stake s a = Some st \<and> g_reward_tally s a = Some t \<and>
        g_pending_stake s a = Some p \<and> g_distribution_id s a = Some d \<and>
        0 \<le> st \<and> 0 \<le> p \<and> 0 \<le> d \<and> d \<le> g_current_distribution_id s \<and>
        (if d \<noteq> g_current_distribution_id s
         then \<exists>h. g_reward_per_token_history s d = Some h \<and>
                  0 \<le> (st + p) * g_reward_per_token s - (t + p * h)
         else 0 \<le> st * g_reward_per_token s - t))"

definition g_keys :: "gap \<Rightarrow> bool" where
  "g_keys s \<longleftrightarrow> dom (g_stake s) = {1, 2} \<and> dom (g_reward_tally s) = {1, 2} \<and>
     dom (g_pending_stake s) = {1, 2} \<and> dom (g_distribution_id s) = {1, 2}"

text \<open>The stake an account holds once settled, and its stake still waiting.\<close>

definition g_active :: "gap \<Rightarrow> address \<Rightarrow> amount" where
  "g_active s a = the (g_stake s a) +
     (if g_distribution_id s a \<noteq> Some (g_current_distribution_id s)
      then the (g_pending_stake s a) else 0)"

definition g_waiting :: "gap \<Rightarrow> address \<Rightarrow> amount" where
  "g_waiting s a =
     (if g_distribution_id s a = Some (g_current_distribution_id s)
      then the (g_pending_stake s a) else 0)"

definition g_inv :: "gap \<Rightarrow> bool" where
  "g_inv s \<longleftrightarrow> g_keys s \<and> g_account_ok s 1 \<and> g_account_ok s 2 \<and>
     0 \<le> g_current_distribution_id s \<and>
     (\<forall>e. 0 \<le> e \<and> e < g_current_distribution_id s \<longrightarrow> e \<in> dom (g_reward_per_token_history s)) \<and>
     g_total_stake s = g_active s 1 + g_active s 2 \<and>
     g_total_pending_stake s = g_waiting s 1 + g_waiting s 2"




section \<open>What each call does on a known account\<close>

lemmas prog_defs = ret_def throw_def andthen_def attr_def assign_def getitem_def setitem_def augitem_def









lemma g_update_state_known:
  assumes "g_stake s a = Some st" "g_reward_tally s a = Some t"
    "g_pending_stake s a = Some p" "g_distribution_id s a = Some d"
    "d \<noteq> g_current_distribution_id s \<longrightarrow> g_reward_per_token_history s d = Some h"
  shows "g_update_state a s =
     (Inr (), s\<lparr>g_stake := (g_stake s)(a \<mapsto> if d \<noteq> g_current_distribution_id s then st + p else st),
                g_reward_tally := (g_reward_tally s)
                   (a \<mapsto> if d \<noteq> g_current_distribution_id s then t + p * h else t),
                g_distribution_id := (g_distribution_id s)(a \<mapsto> g_current_distribution_id s),
                g_pending_stake := (g_pending_stake s)
                   (a \<mapsto> if d \<noteq> g_current_distribution_id s then 0 else p)\<rparr>)"
  using assms by (simp add: g_update_state_def prog_defs fun_upd_idem)

lemma g_deposit_stake_known:
  assumes "g_stake s a = Some st" "g_reward_tally s a = Some t"
    "g_pending_stake s a = Some p" "g_distribution_id s a = Some d"
    "d \<noteq> g_current_distribution_id s \<longrightarrow> g_reward_per_token_history s d = Some h"
  shows "g_deposit_stake a x s =
     (Inr (), s\<lparr>g_stake := (g_stake s)(a \<mapsto> if d \<noteq> g_current_distribution_id s then st + p else st),
                g_reward_tally := (g_reward_tally s)
                   (a \<mapsto> if d \<noteq> g_current_distribution_id s then t + p * h else t),
                g_distribution_id := (g_distribution_id s)(a \<mapsto> g_current_distribution_id s),
                g_pending_stake := (g_pending_stake s)
                   (a \<mapsto> (if d \<noteq> g_current_distribution_id s then 0 else p) + x),
                g_total_pending_stake := g_total_pending_stake s + x\<rparr>)"
  using assms by (simp add: g_deposit_stake_def g_update_state_known[OF assms] prog_defs)

lemma g_withdraw_stake_insufficient:
  assumes "g_stake s a = Some st" "g_pending_stake s a = Some p" "st + p < x"
  shows "g_withdraw_stake a x s = (Inl InsufficientStake, s)"
  using assms by (simp add: g_withdraw_stake_def prog_defs)

lemma g_withdraw_stake_known:
  assumes "g_stake s a = Some st" "g_reward_tally s a = Some t"
    "g_pending_stake s a = Some p" "g_distribution_id s a = Some d"
    "d \<noteq> g_current_distribution_id s \<longrightarrow> g_reward_per_token_history s d = Some h"
    "x \<le> st + p"
  shows "g_withdraw_stake a x s =
     (let st' = (if d \<noteq> g_current_distribution_id s then st + p else st);
          t' = (if d \<noteq> g_current_distribution_id s then t + p * h else t);
          p' = (if d \<noteq> g_current_distribution_id s then 0 else p);
          pa = min x p';
          ca = x - pa in
     (Inr (), s\<lparr>g_stake := (g_stake s)(a \<mapsto> st' - ca),
                g_reward_tally := (g_reward_tally s)(a \<mapsto> t' - g_reward_per_token s * ca),
                g_distribution_id := (g_distribution_id s)(a \<mapsto> g_current_distribution_id s),
                g_pending_stake := (g_pending_stake s)(a \<mapsto> p' - pa),
                g_total_pending_stake := g_total_pending_stake s - pa,
                g_total_stake := g_total_stake s - ca\<rparr>))"
  using assms(1-4,6)
  by (simp add: g_withdraw_stake_def g_update_state_known[OF assms(1-5)] prog_defs Let_def)

lemma g_compute_reward_known:
  assumes "g_stake s a = Some st" "g_reward_tally s a = Some t"
    "g_pending_stake s a = Some p" "g_distribution_id s a = Some d"
    "d \<noteq> g_current_distribution_id s \<longrightarrow> g_reward_per_token_history s d = Some h"
  shows "g_compute_reward a s =
     (Inr ((if d \<noteq> g_current_distribution_id s then st + p else st) * g_reward_per_token s
           - (if d \<noteq> g_current_distribution_id s then t + p * h else t)), s)"
  using assms by (simp add: g_compute_reward_def prog_defs)

lemma g_withdraw_reward_known:
  assumes "g_stake s a = Some st" "g_reward_tally s a = Some t"
    "g_pending_stake s a = Some p" "g_distribution_id s a = Some d"
    "d \<noteq> g_current_distribution_id s \<longrightarrow> g_reward_per_token_history s d = Some h"
  shows "g_withdraw_reward a s =
     (let st' = (if d \<noteq> g_current_distribution_id s then st + p else st);
          t' = (if d \<noteq> g_current_distribution_id s then t + p * h else t);
          p' = (if d \<noteq> g_current_distribution_id s then 0 else p) in
     (Inr (st' * g_reward_per_token s - t'),
      s\<lparr>g_stake := (g_stake s)(a \<mapsto> st'),
        g_reward_tally := (g_reward_tally s)(a \<mapsto> st' * g_reward_per_token s),
        g_distribution_id := (g_distribution_id s)(a \<mapsto> g_current_distribution_id s),
        g_pending_stake := (g_pending_stake s)(a \<mapsto> p')\<rparr>))"
  using assms(1-4)
  by (simp add: g_withdraw_reward_def g_update_state_known[OF assms(1-5)] g_compute_reward_def
      prog_defs Let_def)

lemma g_distribute_known:
  "g_distribute reward s =
     (let rpt = (if 0 < g_total_stake s then g_reward_per_token s + reward / g_total_stake s
                 else g_reward_per_token s) in
      (Inr (), s\<lparr>g_reward_per_token := rpt,
                 g_reward_per_token_history :=
                   (g_reward_per_token_history s)(g_current_distribution_id s \<mapsto> rpt),
                 g_current_distribution_id := g_current_distribution_id s + 1,
                 g_total_stake := g_total_stake s + g_total_pending_stake s,
                 g_total_pending_stake := 0\<rparr>))"
  by (simp add: g_distribute_def prog_defs Let_def)

lemma g_unknown:
  assumes "g_distribution_id s a = None" "g_stake s a = None"
  shows "g_deposit_stake a x s = (Inl KeyError, s)"
    "g_withdraw_stake a x s = (Inl KeyError, s)"
    "g_compute_reward a s = (Inl KeyError, s)"
    "g_withdraw_reward a s = (Inl KeyError, s)"
  using assms by (simp_all add: g_deposit_stake_def g_withdraw_stake_def g_compute_reward_def
    g_withdraw_reward_def g_update_state_def prog_defs)

section \<open>The invariant of the deferred-reward ledger\<close>

lemma dom_two_step:
  fixes f f' :: "address \<rightharpoonup> 'v"
  assumes "dom f = {1, 2}" "a = 1 \<or> a = 2" "\<And>b. b \<noteq> a \<Longrightarrow> f' b = f b" "f' a = Some v"
  shows "dom f' = {1, 2}"
proof -
  have "b \<in> dom f' \<longleftrightarrow> b \<in> {1, 2}" for b
  proof (cases "b = a")
    case True
    then show ?thesis using assms(2,4) by auto
  next
    case False
    then have "b \<in> dom f' \<longleftrightarrow> b \<in> dom f" using assms(3)[of b] by (simp add: domIff)
    then show ?thesis using assms(1) by simp
  qed
  then show ?thesis by blast
qed
















section \<open>The invariant of the gap ledger\<close>

lemma g_inv_init: "g_inv g_init"
  by (auto simp: g_inv_def g_keys_def g_account_ok_def g_init_def g_active_def g_waiting_def)

lemma g_keys_unknown:
  assumes "g_keys s" "a \<noteq> 1" "a \<noteq> 2"
  shows "g_stake s a = None" "g_reward_tally s a = None"
    "g_pending_stake s a = None" "g_distribution_id s a = None"
  using assms unfolding g_keys_def by (auto simp: domIff[symmetric])

lemma g_inv_unknown:
  assumes "g_inv s" "a \<noteq> 1" "a \<noteq> 2"
  shows "g_deposit_stake a x s = (Inl KeyError, s)"
    "g_withdraw_stake a x s = (Inl KeyError, s)"
    "g_compute_reward a s = (Inl KeyError, s)"
    "g_withdraw_reward a s = (Inl KeyError, s)"
  using assms g_unknown[OF g_keys_unknown(4,1)[of s a]] by (simp_all add: g_inv_def)

lemma g_inv_account: "g_inv s \<Longrightarrow> a = 1 \<or> a = 2 \<Longrightarrow> g_account_ok s a"
  by (auto simp: g_inv_def)

lemma g_account_okI:
  assumes "g_stake s a = Some st" "g_reward_tally s a = Some t"
    "g_pending_stake s a = Some p" "g_distribution_id s a = Some d"
    "0 \<le> st" "0 \<le> p" "0 \<le> d" "d \<le> g_current_distribution_id s"
    "d \<noteq> g_current_distribution_id s \<Longrightarrow>
       \<exists>h. g_reward_per_token_history s d = Some h \<and>
           0 \<le> (st + p) * g_reward_per_token s - (t + p * h)"
    "d = g_current_distribution_id s \<Longrightarrow> 0 \<le> st * g_reward_per_token s - t"
  shows "g_account_ok s a"
  unfolding g_account_ok_def
  using assms by (intro exI[of _ st] exI[of _ t] exI[of _ p] exI[of _ d]) simp

lemma g_account_ok_frame:
  assumes "g_account_ok s b"
    "g_stake s' b = g_stake s b" "g_reward_tally s' b = g_reward_tally s b"
    "g_pending_stake s' b = g_pending_stake s b" "g_distribution_id s' b = g_distribution_id s b"
    "g_current_distribution_id s' = g_current_distribution_id s"
    "g_reward_per_token s' = g_reward_per_token s"
    "g_reward_per_token_history s' = g_reward_per_token_history s"
  shows "g_account_ok s' b"
  using assms(1) unfolding g_account_ok_def assms(2-) .

text \<open>
  A step that settles and rewrites one known account, leaving the accumulator, the
  epoch and the history alone.
\<close>

lemma g_inv_account_step:
  assumes inv: "g_inv s" and a: "a = 1 \<or> a = 2"
    and ok: "g_account_ok s' a"
    and frame: "\<And>b. b \<noteq> a \<Longrightarrow>
        g_stake s' b = g_stake s b \<and> g_reward_tally s' b = g_reward_tally s b \<and>
        g_pending_stake s' b = g_pending_stake s b \<and>
        g_distribution_id s' b = g_distribution_id s b"
    and acc: "g_current_distribution_id s' = g_current_distribution_id s"
        "g_reward_per_token s' = g_reward_per_token s"
        "g_reward_per_token_history s' = g_reward_per_token_history s"
    and total: "g_total_stake s' - g_active s' a = g_total_stake s - g_active s a"
    and pending: "g_total_pending_stake s' - g_waiting s' a
                  = g_total_pending_stake s - g_waiting s a"
  shows "g_inv s'"
proof -
  have other: "g_account_ok s' b" if "b \<noteq> a" "b = 1 \<or> b = 2" for b
    using g_account_ok_frame[OF g_inv_account[OF inv that(2)], of s'] frame[OF that(1)] acc
    by simp
  have oks: "g_account_ok s' 1" "g_account_ok s' 2"
    using ok other[of 1] other[of 2] a by auto
  have k: "g_keys s" using inv by (simp add: g_inv_def)
  from ok obtain st t p d where
    v: "g_stake s' a = Some st" "g_reward_tally s' a = Some t"
       "g_pending_stake s' a = Some p" "g_distribution_id s' a = Some d"
    by (auto simp: g_account_ok_def)
  have keys: "g_keys s'"
    unfolding g_keys_def
  proof (intro conjI)
    show "dom (g_stake s') = {1, 2}"
      by (rule dom_two_step[of "g_stake s" a]) (use k a v frame in \<open>simp_all add: g_keys_def\<close>)
    show "dom (g_reward_tally s') = {1, 2}"
      by (rule dom_two_step[of "g_reward_tally s" a]) (use k a v frame in \<open>simp_all add: g_keys_def\<close>)
    show "dom (g_pending_stake s') = {1, 2}"
      by (rule dom_two_step[of "g_pending_stake s" a]) (use k a v frame in \<open>simp_all add: g_keys_def\<close>)
    show "dom (g_distribution_id s') = {1, 2}"
      by (rule dom_two_step[of "g_distribution_id s" a]) (use k a v frame in \<open>simp_all add: g_keys_def\<close>)
  qed
  have same: "g_active s' b = g_active s b" "g_waiting s' b = g_waiting s b" if "b \<noteq> a" for b
    using frame[OF that] acc by (simp_all add: g_active_def g_waiting_def)
  have "g_total_stake s' = g_active s' 1 + g_active s' 2"
    "g_total_pending_stake s' = g_waiting s' 1 + g_waiting s' 2"
    using inv a total pending same[of 1] same[of 2] by (auto simp: g_inv_def)
  then show ?thesis
    using keys oks acc inv by (simp add: g_inv_def)
qed

lemma g_account_okE:
  assumes "g_account_ok s a"
  obtains st t p d h where
    "g_stake s a = Some st" "g_reward_tally s a = Some t"
    "g_pending_stake s a = Some p" "g_distribution_id s a = Some d"
    "0 \<le> st" "0 \<le> p" "0 \<le> d" "d \<le> g_current_distribution_id s"
    "d \<noteq> g_current_distribution_id s \<longrightarrow> g_reward_per_token_history s d = Some h"
    "0 \<le> (if d \<noteq> g_current_distribution_id s then st + p else st) * g_reward_per_token s
         - (if d \<noteq> g_current_distribution_id s then t + p * h else t)"
proof -
  from assms obtain st t p d where
    v: "g_stake s a = Some st" "g_reward_tally s a = Some t"
       "g_pending_stake s a = Some p" "g_distribution_id s a = Some d"
       "0 \<le> st" "0 \<le> p" "0 \<le> d" "d \<le> g_current_distribution_id s"
    and c: "if d \<noteq> g_current_distribution_id s
         then \<exists>h. g_reward_per_token_history s d = Some h \<and>
                  0 \<le> (st + p) * g_reward_per_token s - (t + p * h)
         else 0 \<le> st * g_reward_per_token s - t"
    unfolding g_account_ok_def by blast
  show thesis
  proof (cases "d \<noteq> g_current_distribution_id s")
    case True
    with c obtain h where "g_reward_per_token_history s d = Some h"
      "0 \<le> (st + p) * g_reward_per_token s - (t + p * h)" by auto
    with True v show thesis by (intro that[of st t p d h]) simp_all
  next
    case False
    with c v show thesis by (intro that[of st t p d 0]) simp_all
  qed
qed

lemma g_inv_deposit:
  assumes "g_inv s" "0 \<le> x"
  shows "g_inv (snd (g_deposit_stake a x s))"
proof (cases "a = 1 \<or> a = 2")
  case False
  then show ?thesis using assms g_inv_unknown(1)[of s a x] by simp
next
  case True
  from g_inv_account[OF assms(1) True] obtain st t p d h where
    v: "g_stake s a = Some st" "g_reward_tally s a = Some t"
       "g_pending_stake s a = Some p" "g_distribution_id s a = Some d"
    and nn: "0 \<le> st" "0 \<le> p" "0 \<le> d" "d \<le> g_current_distribution_id s"
    and h: "d \<noteq> g_current_distribution_id s \<longrightarrow> g_reward_per_token_history s d = Some h"
    and rw: "0 \<le> (if d \<noteq> g_current_distribution_id s then st + p else st) * g_reward_per_token s
         - (if d \<noteq> g_current_distribution_id s then t + p * h else t)"
    by (rule g_account_okE) blast
  define st' where "st' = (if d \<noteq> g_current_distribution_id s then st + p else st)"
  define t' where "t' = (if d \<noteq> g_current_distribution_id s then t + p * h else t)"
  define p' where "p' = (if d \<noteq> g_current_distribution_id s then 0 else p)"
  define s' where "s' = snd (g_deposit_stake a x s)"
  have s': "s' = s\<lparr>g_stake := (g_stake s)(a \<mapsto> st'),
                g_reward_tally := (g_reward_tally s)(a \<mapsto> t'),
                g_distribution_id := (g_distribution_id s)(a \<mapsto> g_current_distribution_id s),
                g_pending_stake := (g_pending_stake s)(a \<mapsto> p' + x),
                g_total_pending_stake := g_total_pending_stake s + x\<rparr>"
    unfolding s'_def g_deposit_stake_known[OF v h] st'_def t'_def p'_def by simp
  have ok: "g_account_ok s' a"
    by (rule g_account_okI[where st = st' and t = t' and p = "p' + x"
          and d = "g_current_distribution_id s"])
       (use nn assms(2) rw in \<open>simp_all add: s' st'_def[symmetric] t'_def[symmetric]\<close>,
        simp_all add: st'_def p'_def)
  show ?thesis
    unfolding s'_def[symmetric]
    by (rule g_inv_account_step[OF assms(1) True ok])
       (use v in \<open>simp_all add: s' g_active_def g_waiting_def st'_def p'_def\<close>)
qed

lemma g_inv_withdraw_stake:
  assumes "g_inv s" "0 \<le> x"
  shows "g_inv (snd (g_withdraw_stake a x s))"
proof (cases "a = 1 \<or> a = 2")
  case False
  then show ?thesis using assms g_inv_unknown(2)[of s a x] by simp
next
  case True
  from g_inv_account[OF assms(1) True] obtain st t p d h where
    v: "g_stake s a = Some st" "g_reward_tally s a = Some t"
       "g_pending_stake s a = Some p" "g_distribution_id s a = Some d"
    and nn: "0 \<le> st" "0 \<le> p" "0 \<le> d" "d \<le> g_current_distribution_id s"
    and h: "d \<noteq> g_current_distribution_id s \<longrightarrow> g_reward_per_token_history s d = Some h"
    and rw: "0 \<le> (if d \<noteq> g_current_distribution_id s then st + p else st) * g_reward_per_token s
         - (if d \<noteq> g_current_distribution_id s then t + p * h else t)"
    by (rule g_account_okE) blast
  show ?thesis
  proof (cases "x \<le> st + p")
    case False
    then show ?thesis using assms g_withdraw_stake_insufficient[OF v(1,3), of x] by simp
  next
    case le: True
    define st' where "st' = (if d \<noteq> g_current_distribution_id s then st + p else st)"
    define t' where "t' = (if d \<noteq> g_current_distribution_id s then t + p * h else t)"
    define p' where "p' = (if d \<noteq> g_current_distribution_id s then 0 else p)"
    define pa where "pa = min x p'"
    define ca where "ca = x - pa"
    define s' where "s' = snd (g_withdraw_stake a x s)"
    have s': "s' = s\<lparr>g_stake := (g_stake s)(a \<mapsto> st' - ca),
                g_reward_tally := (g_reward_tally s)(a \<mapsto> t' - g_reward_per_token s * ca),
                g_distribution_id := (g_distribution_id s)(a \<mapsto> g_current_distribution_id s),
                g_pending_stake := (g_pending_stake s)(a \<mapsto> p' - pa),
                g_total_pending_stake := g_total_pending_stake s - pa,
                g_total_stake := g_total_stake s - ca\<rparr>"
      unfolding s'_def g_withdraw_stake_known[OF v h le] Let_def st'_def t'_def p'_def pa_def ca_def
      by simp
    have b: "0 \<le> st' - ca" "0 \<le> p' - pa"
      using nn le assms(2) by (auto simp: st'_def p'_def pa_def ca_def min_def)
    have "(st' - ca) * g_reward_per_token s - (t' - g_reward_per_token s * ca)
          = st' * g_reward_per_token s - t'"
      by (simp add: algebra_simps)
    with rw have rw': "0 \<le> (st' - ca) * g_reward_per_token s - (t' - g_reward_per_token s * ca)"
      by (simp add: st'_def t'_def)
    have ok: "g_account_ok s' a"
      by (rule g_account_okI[where st = "st' - ca" and t = "t' - g_reward_per_token s * ca"
            and p = "p' - pa" and d = "g_current_distribution_id s"])
         (use nn b rw' in \<open>simp_all add: s'\<close>)
    show ?thesis
      unfolding s'_def[symmetric]
      by (rule g_inv_account_step[OF assms(1) True ok])
         (use v in \<open>simp_all add: s' g_active_def g_waiting_def st'_def p'_def\<close>)
  qed
qed

lemma g_inv_withdraw_reward:
  assumes "g_inv s"
  shows "g_inv (snd (g_withdraw_reward a s))"
proof (cases "a = 1 \<or> a = 2")
  case False
  then show ?thesis using assms g_inv_unknown(4)[of s a] by simp
next
  case True
  from g_inv_account[OF assms(1) True] obtain st t p d h where
    v: "g_stake s a = Some st" "g_reward_tally s a = Some t"
       "g_pending_stake s a = Some p" "g_distribution_id s a = Some d"
    and nn: "0 \<le> st" "0 \<le> p" "0 \<le> d" "d \<le> g_current_distribution_id s"
    and h: "d \<noteq> g_current_distribution_id s \<longrightarrow> g_reward_per_token_history s d = Some h"
    by (rule g_account_okE) blast
  define st' where "st' = (if d \<noteq> g_current_distribution_id s then st + p else st)"
  define p' where "p' = (if d \<noteq> g_current_distribution_id s then 0 else p)"
  define s' where "s' = snd (g_withdraw_reward a s)"
  have s': "s' = s\<lparr>g_stake := (g_stake s)(a \<mapsto> st'),
        g_reward_tally := (g_reward_tally s)(a \<mapsto> st' * g_reward_per_token s),
        g_distribution_id := (g_distribution_id s)(a \<mapsto> g_current_distribution_id s),
        g_pending_stake := (g_pending_stake s)(a \<mapsto> p')\<rparr>"
    unfolding s'_def g_withdraw_reward_known[OF v h] Let_def st'_def p'_def by simp
  have ok: "g_account_ok s' a"
    by (rule g_account_okI[where st = st' and t = "st' * g_reward_per_token s"
          and p = p' and d = "g_current_distribution_id s"])
       (use nn in \<open>simp_all add: s'\<close>, simp_all add: st'_def p'_def)
  show ?thesis
    unfolding s'_def[symmetric]
    by (rule g_inv_account_step[OF assms(1) True ok])
       (use v in \<open>simp_all add: s' g_active_def g_waiting_def st'_def p'_def\<close>)
qed

lemma g_account_ok_distribute:
  assumes "g_account_ok s a" "g_reward_per_token s \<le> rpt"
  shows "g_account_ok (s\<lparr>g_reward_per_token := rpt,
            g_reward_per_token_history :=
              (g_reward_per_token_history s)(g_current_distribution_id s \<mapsto> rpt),
            g_current_distribution_id := g_current_distribution_id s + 1,
            g_total_stake := tot, g_total_pending_stake := 0\<rparr>) a"
proof -
  from assms(1) obtain st t p d h where
    v: "g_stake s a = Some st" "g_reward_tally s a = Some t"
       "g_pending_stake s a = Some p" "g_distribution_id s a = Some d"
    and nn: "0 \<le> st" "0 \<le> p" "0 \<le> d" "d \<le> g_current_distribution_id s"
    and h: "d \<noteq> g_current_distribution_id s \<longrightarrow> g_reward_per_token_history s d = Some h"
    and rw: "0 \<le> (if d \<noteq> g_current_distribution_id s then st + p else st) * g_reward_per_token s
         - (if d \<noteq> g_current_distribution_id s then t + p * h else t)"
    by (rule g_account_okE) blast
  define h' where "h' = (if d = g_current_distribution_id s then rpt else h)"
  have mono: "st * g_reward_per_token s \<le> st * rpt" "(st + p) * g_reward_per_token s \<le> (st + p) * rpt"
    using nn assms(2) by (simp_all add: mult_left_mono)
  have "0 \<le> (st + p) * rpt - (t + p * h')"
  proof (cases "d = g_current_distribution_id s")
    case True
    then have "0 \<le> st * g_reward_per_token s - t" using rw by simp
    with mono(1) have "0 \<le> st * rpt - t" by linarith
    then show ?thesis using True by (simp add: h'_def algebra_simps)
  next
    case False
    then have "0 \<le> (st + p) * g_reward_per_token s - (t + p * h)" using rw by simp
    with mono(2) show ?thesis using False by (simp add: h'_def)
  qed
  then show ?thesis
    by (intro g_account_okI[where st = st and t = t and p = p and d = d])
       (use v nn h in \<open>auto simp: h'_def\<close>)
qed

lemma g_inv_distribute:
  assumes "g_inv s" "0 \<le> reward"
  shows "g_inv (snd (g_distribute reward s))"
proof -
  define rpt where "rpt = (if 0 < g_total_stake s then g_reward_per_token s + reward / g_total_stake s
                 else g_reward_per_token s)"
  define s' where "s' = snd (g_distribute reward s)"
  have s': "s' = s\<lparr>g_reward_per_token := rpt,
                 g_reward_per_token_history :=
                   (g_reward_per_token_history s)(g_current_distribution_id s \<mapsto> rpt),
                 g_current_distribution_id := g_current_distribution_id s + 1,
                 g_total_stake := g_total_stake s + g_total_pending_stake s,
                 g_total_pending_stake := 0\<rparr>"
    unfolding s'_def g_distribute_known Let_def rpt_def by simp
  have le: "g_reward_per_token s \<le> rpt"
    using assms(2) by (simp add: rpt_def)
  have oks: "g_account_ok s' 1" "g_account_ok s' 2"
    unfolding s' using assms(1) le by (simp_all add: g_account_ok_distribute g_inv_def)
  have keys: "g_keys s'" using assms(1) by (simp add: s' g_inv_def g_keys_def)
  have sums: "g_active s' a = g_active s a + g_waiting s a" "g_waiting s' a = 0"
    if "a = 1 \<or> a = 2" for a
  proof -
    from g_inv_account[OF assms(1) that] obtain d where
      "g_distribution_id s a = Some d" "d \<le> g_current_distribution_id s"
      by (auto simp: g_account_ok_def)
    then show "g_active s' a = g_active s a + g_waiting s a" "g_waiting s' a = 0"
      by (auto simp: s' g_active_def g_waiting_def)
  qed
  have hist: "\<forall>e. 0 \<le> e \<and> e < g_current_distribution_id s' \<longrightarrow>
      e \<in> dom (g_reward_per_token_history s')"
    using assms(1) by (auto simp: s' g_inv_def)
  show ?thesis
    unfolding s'_def[symmetric] g_inv_def
    using keys oks hist sums[of 1] sums[of 2] assms(1)
    by (simp add: g_inv_def) (simp add: s')
qed

lemma g_inv_call: "g_inv s \<Longrightarrow> nonneg_call c \<Longrightarrow> g_inv (g_call c s)"
  by (cases c) (simp_all add: g_inv_deposit g_inv_withdraw_stake g_inv_withdraw_reward g_inv_distribute)

lemma g_reachable_inv: "g_reachable s \<Longrightarrow> g_inv s"
  by (induction rule: g_reachable.induct) (simp_all add: g_inv_init g_inv_call)

section \<open>Consequences of the invariants\<close>


lemmas g_defs = g_update_state_def g_distribute_def g_deposit_stake_def
  g_withdraw_stake_def g_compute_reward_def g_withdraw_reward_def


lemma g_reachable_calls:
  "g_reachable s \<Longrightarrow> list_all nonneg_call cs \<Longrightarrow> g_reachable (g_calls cs s)"
  by (induction cs arbitrary: s) (simp_all add: g_reachable_call)




lemma g_compute_reward_reachable:
  assumes "g_reachable s"
  shows "(a = 1 \<or> a = 2 \<longrightarrow> (\<exists>r. g_compute_reward a s = (Inr r, s) \<and> 0 \<le> r)) \<and>
         (\<not> (a = 1 \<or> a = 2) \<longrightarrow> g_compute_reward a s = (Inl KeyError, s))"
proof (intro conjI impI)
  assume a: "a = 1 \<or> a = 2"
  from g_inv_account[OF g_reachable_inv[OF assms] a] obtain st t p d h where
    v: "g_stake s a = Some st" "g_reward_tally s a = Some t"
       "g_pending_stake s a = Some p" "g_distribution_id s a = Some d"
    and h: "d \<noteq> g_current_distribution_id s \<longrightarrow> g_reward_per_token_history s d = Some h"
    and rw: "0 \<le> (if d \<noteq> g_current_distribution_id s then st + p else st) * g_reward_per_token s
         - (if d \<noteq> g_current_distribution_id s then t + p * h else t)"
    by (rule g_account_okE) blast
  show "\<exists>r. g_compute_reward a s = (Inr r, s) \<and> 0 \<le> r"
    unfolding g_compute_reward_known[OF v h] using rw by simp
next
  assume "\<not> (a = 1 \<or> a = 2)"
  then show "g_compute_reward a s = (Inl KeyError, s)"
    using g_inv_unknown(3)[OF g_reachable_inv[OF assms], of a] by simp
qed



lemma g_update_state_reachable:
  assumes "g_reachable s" "a = 1 \<or> a = 2"
  shows "\<exists>s'. g_update_state a s = (Inr (), s')"
proof -
  from g_inv_account[OF g_reachable_inv[OF assms(1)] assms(2)] obtain st t p d h where
    v: "g_stake s a = Some st" "g_reward_tally s a = Some t"
       "g_pending_stake s a = Some p" "g_distribution_id s a = Some d"
    and h: "d \<noteq> g_current_distribution_id s \<longrightarrow> g_reward_per_token_history s d = Some h"
    by (rule g_account_okE) blast
  show ?thesis unfolding g_update_state_known[OF v h] by simp
qed



section \<open>The claims\<close>

subsection \<open>C6: the worked example of the deferred-reward ledger\<close>


subsection \<open>C4: \<open>distribute\<close> of the deferred-reward ledger\<close>



subsection \<open>C5: \<open>distribute\<close> of the gap ledger\<close>



subsection \<open>C1: no negative reward\<close>



subsection \<open>C3: \<open>withdraw_stake\<close> beyond the claimable stake\<close>













subsection \<open>C10: the history lookups of the gap ledger\<close>

text \<open>
  Claim C10.  In every reachable state of the gap ledger, every account's
  \<open>distribution_id\<close> is at least \<open>0\<close> and at most \<open>current_distribution_id\<close>, and
  \<open>reward_per_token_history\<close> has an entry for every epoch id from \<open>0\<close> up to, but
  not including, \<open>current_distribution_id\<close>.  So for an account whose
  \<open>distribution_id\<close> differs from the current one the history has the entry that
  \<open>__update_state\<close> and \<open>compute_reward\<close> look up, and both return.
\<close>

theorem g_history_lookups:
  assumes "g_reachable s"
  shows "(\<forall>a d. g_distribution_id s a = Some d \<longrightarrow> 0 \<le> d \<and> d \<le> g_current_distribution_id s) \<and>
    (\<forall>e. 0 \<le> e \<and> e < g_current_distribution_id s \<longrightarrow>
         e \<in> dom (g_reward_per_token_history s)) \<and>
    (\<forall>a d. g_distribution_id s a = Some d \<and> d \<noteq> g_current_distribution_id s \<longrightarrow>
         d \<in> dom (g_reward_per_token_history s) \<and>
         fst (g_update_state a s) = Inr () \<and>
         (\<exists>r. fst (g_compute_reward a s) = Inr r))"
proof -
  have inv: "g_inv s" by (rule g_reachable_inv[OF assms])
  have known: "a = 1 \<or> a = 2" if "g_distribution_id s a = Some d" for a d
  proof -
    have "a \<in> dom (g_distribution_id s)" using that by (rule domI)
    moreover have "dom (g_distribution_id s) = {1, 2}" using inv by (simp add: g_inv_def g_keys_def)
    ultimately show ?thesis by simp
  qed
  have le: "d \<le> g_current_distribution_id s" "0 \<le> d" if "g_distribution_id s a = Some d" for a d
    using g_inv_account[OF inv known[OF that]] that by (auto simp: g_account_ok_def)
  have hist: "\<forall>e. 0 \<le> e \<and> e < g_current_distribution_id s \<longrightarrow>
         e \<in> dom (g_reward_per_token_history s)"
    using inv by (simp add: g_inv_def)
  have stale: "d \<in> dom (g_reward_per_token_history s) \<and>
         fst (g_update_state a s) = Inr () \<and> (\<exists>r. fst (g_compute_reward a s) = Inr r)"
    if "g_distribution_id s a = Some d" "d \<noteq> g_current_distribution_id s" for a d
  proof -
    have "d \<in> dom (g_reward_per_token_history s)"
      using hist le[OF that(1)] that(2) by simp
    moreover have "fst (g_update_state a s) = Inr ()"
      using g_update_state_reachable[OF assms known[OF that(1)]] by auto
    moreover have "\<exists>r. fst (g_compute_reward a s) = Inr r"
      using g_compute_reward_reachable[OF assms, of a] known[OF that(1)] by auto
    ultimately show ?thesis by blast
  qed
  show ?thesis using le hist stale by blast
qed

theorem g_history_lookups_witness:
  "g_distribution_id (g_calls [Deposit_stake 1 100, Distribute 10, Distribute 5] g_init) 1 = Some 0 \<and>
   g_current_distribution_id (g_calls [Deposit_stake 1 100, Distribute 10, Distribute 5] g_init) = 2 \<and>
   0 \<in> dom (g_reward_per_token_history
            (g_calls [Deposit_stake 1 100, Distribute 10, Distribute 5] g_init)) \<and>
   1 \<in> dom (g_reward_per_token_history
            (g_calls [Deposit_stake 1 100, Distribute 10, Distribute 5] g_init)) \<and>
   fst (g_update_state 1 (g_calls [Deposit_stake 1 100, Distribute 10, Distribute 5] g_init)) = Inr () \<and>
   (\<exists>r. fst (g_compute_reward 1
      (g_calls [Deposit_stake 1 100, Distribute 10, Distribute 5] g_init)) = Inr r)"
proof -
  let ?s = "g_calls [Deposit_stake 1 100, Distribute 10, Distribute 5] g_init"
  have r: "g_reachable ?s" by (rule g_reachable_calls[OF g_reachable_init]) simp
  have v: "g_distribution_id ?s 1 = Some 0" "g_current_distribution_id ?s = 2"
    by (simp_all add: g_defs prog_defs g_init_def)
  from g_history_lookups[OF r] have
    a: "\<forall>e. 0 \<le> e \<and> e < g_current_distribution_id ?s \<longrightarrow> e \<in> dom (g_reward_per_token_history ?s)"
    and b: "\<forall>a d. g_distribution_id ?s a = Some d \<and> d \<noteq> g_current_distribution_id ?s \<longrightarrow>
         d \<in> dom (g_reward_per_token_history ?s) \<and>
         fst (g_update_state a ?s) = Inr () \<and>
         (\<exists>r. fst (g_compute_reward a ?s) = Inr r)"
    by blast+
  have "0 \<in> dom (g_reward_per_token_history ?s)" "1 \<in> dom (g_reward_per_token_history ?s)"
    using a unfolding v by simp_all
  moreover have "fst (g_update_state 1 ?s) = Inr () \<and> (\<exists>r. fst (g_compute_reward 1 ?s) = Inr r)"
    using b[rule_format, of 1 0] unfolding v by simp
  ultimately show ?thesis using v by simp
qed

subsection \<open>C8: addresses without an account\<close>




subsection \<open>C2: \<open>withdraw_reward\<close> and the tally\<close>




subsection \<open>C7: claiming twice\<close>




subsection \<open>C9: what \<open>total_stake\<close> sums\<close>







end
